theory Spec2Isabelle
  imports Main
begin

section \<open>The undo/redo hook (hooks/useUndoRedo)\<close>

text \<open>
  The hook keeps three pieces of React state (\<open>present\<close>, \<open>past\<close>, \<open>future\<close>) and two refs
  (\<open>lastCommittedRef\<close>, \<open>timeoutRef\<close>). One value of the record below is the hook's state
  as one render sees it. Every operation is a function from the state of the latest render
  to the state of the next one. An assignment to a ref takes effect at once. A value given
  to \<open>setPresent\<close>, \<open>setPast\<close> or \<open>setFuture\<close> is computed at the call; an updater function
  given to them is queued and runs at the next render, after the handler has returned. The
  updaters of \<open>undo\<close> and \<open>redo\<close> use only the \<open>present\<close> of their closure; the updater
  \<open>p => [...p, lastCommittedRef.current]\<close> of \<open>commitToHistory\<close> reads the ref as the
  handler has left it.

  \<open>timeoutRef\<close> holds the handle of the one pending \<open>setTimeout\<close>, or null. The handle
  stands for the scheduled callback: the model keeps the milliseconds left until it runs
  and the \<open>newValue\<close> its closure has captured.

  The type parameter \<open>T\<close> is \<open>'a\<close>; HOL equality is \<open>===\<close> on the strings the
  application stores.
\<close>

record UndoRedoOptions =
  debounce :: "int option"

record 'a UndoRedo =
  present :: 'a
  past :: "'a list"
  future :: "'a list"
  lastCommittedRef :: 'a
  timeoutRef :: "(nat \<times> 'a) option"

text \<open>\<open>useUndoRedo(initialState, options)\<close>: the state of the first render.\<close>

definition useUndoRedo :: "'a \<Rightarrow> 'a UndoRedo" where
  "useUndoRedo initialState =
     \<lparr>present = initialState, past = [], future = [],
      lastCommittedRef = initialState, timeoutRef = None\<rparr>"

text \<open>
  \<open>clearTimeout(timeoutRef.current); timeoutRef.current = null\<close>, guarded by
  \<open>if (timeoutRef.current)\<close>: with no handle the ref is null already.
\<close>

definition clearPending :: "'a UndoRedo \<Rightarrow> 'a UndoRedo" where
  "clearPending s = (case timeoutRef s of None \<Rightarrow> s | Some h \<Rightarrow> s\<lparr>timeoutRef := None\<rparr>)"

text \<open>\<open>undo\<close>: \<open>past[past.length - 1]\<close> and \<open>past.slice(0, past.length - 1)\<close>.\<close>

definition undo :: "'a UndoRedo \<Rightarrow> 'a UndoRedo" where
  "undo s =
     (if length (past s) = 0 then s
      else
        let s1 = clearPending s;
            previous = past s ! (length (past s) - 1);
            newPast = take (length (past s) - 1) (past s)
        in s1\<lparr>future := present s # future s1, present := previous, past := newPast,
               lastCommittedRef := previous\<rparr>)"

text \<open>\<open>redo\<close>: \<open>future[0]\<close> and \<open>future.slice(1)\<close>.\<close>

definition redo :: "'a UndoRedo \<Rightarrow> 'a UndoRedo" where
  "redo s =
     (if length (future s) = 0 then s
      else
        let s1 = clearPending s;
            next = future s ! 0;
            newFuture = drop 1 (future s)
        in s1\<lparr>past := past s1 @ [present s], present := next, future := newFuture,
               lastCommittedRef := next\<rparr>)"

text \<open>
  The closure \<open>commitToHistory\<close> of \<open>set\<close>, with the \<open>newValue\<close> it has captured. It queues
  the updater \<open>p => [...p, lastCommittedRef.current]\<close>, sets \<open>future\<close> to the empty list and
  then assigns \<open>lastCommittedRef.current = newValue\<close>. The updater runs at the next render
  and reads the ref after that assignment: the entry appended to \<open>past\<close> is \<open>newValue\<close>, not
  the value the ref held before.
\<close>

definition commitToHistory :: "'a \<Rightarrow> 'a UndoRedo \<Rightarrow> 'a UndoRedo" where
  "commitToHistory newValue s =
     (let s1 = s\<lparr>future := [], lastCommittedRef := newValue\<rparr>
      in s1\<lparr>past := past s1 @ [lastCommittedRef s1]\<rparr>)"

text \<open>
  \<open>!options.debounce\<close>: true when the option is absent (undefined) or zero.
  \<open>setTimeout(f, options.debounce)\<close> waits that many milliseconds when the number lies
  between 1 and \<open>2^31 - 1\<close>; any other delay (negative, or \<open>2^31\<close> and more) is replaced by
  1 millisecond.
\<close>

definition noDebounce :: "UndoRedoOptions \<Rightarrow> bool" where
  "noDebounce options = (case debounce options of None \<Rightarrow> True | Some d \<Rightarrow> d = 0)"

definition delay :: "UndoRedoOptions \<Rightarrow> nat" where
  "delay options =
     (case debounce options of
        None \<Rightarrow> 1
      | Some d \<Rightarrow> if 1 \<le> d \<and> d \<le> 2147483647 then nat d else 1)"

text \<open>
  \<open>set(newValue, forceHistory)\<close>. The callback compares \<open>newValue\<close> with the \<open>present\<close> its
  closure has captured: \<open>set_closure\<close> takes that captured value as \<open>seen\<close>. A call made
  from the handlers of the latest render sees the current \<open>present\<close>, which is \<open>set_op\<close>.
\<close>

definition set_closure :: "UndoRedoOptions \<Rightarrow> 'a \<Rightarrow> 'a \<Rightarrow> bool \<Rightarrow> 'a UndoRedo \<Rightarrow> 'a UndoRedo" where
  "set_closure options seen newValue forceHistory s =
     (if newValue = seen then s
      else
        let s1 = s\<lparr>present := newValue\<rparr> in
        if forceHistory \<or> noDebounce options
        then commitToHistory newValue (clearPending s1)
        else s1\<lparr>timeoutRef := Some (delay options, newValue)\<rparr>)"

definition set_op :: "UndoRedoOptions \<Rightarrow> 'a \<Rightarrow> bool \<Rightarrow> 'a UndoRedo \<Rightarrow> 'a UndoRedo" where
  "set_op options newValue forceHistory s =
     set_closure options (present s) newValue forceHistory s"

text \<open>\<open>reset(newValue)\<close>.\<close>

definition reset :: "'a \<Rightarrow> 'a UndoRedo \<Rightarrow> 'a UndoRedo" where
  "reset newValue s =
     clearPending (s\<lparr>present := newValue, past := [], future := [],
                     lastCommittedRef := newValue\<rparr>)"

definition canUndo :: "'a UndoRedo \<Rightarrow> bool" where
  "canUndo s = (length (past s) > 0)"

definition canRedo :: "'a UndoRedo \<Rightarrow> bool" where
  "canRedo s = (length (future s) > 0)"

text \<open>
  Time: \<open>elapse d\<close> lets \<open>d\<close> milliseconds pass with no call on the hook. A pending timeout
  that falls due runs its callback, \<open>commitToHistory(); timeoutRef.current = null\<close>;
  one that does not has that much less to wait.
\<close>

definition elapse :: "nat \<Rightarrow> 'a UndoRedo \<Rightarrow> 'a UndoRedo" where
  "elapse d s =
     (case timeoutRef s of
        None \<Rightarrow> s
      | Some (r, newValue) \<Rightarrow>
          if r \<le> d then (commitToHistory newValue s)\<lparr>timeoutRef := None\<rparr>
          else s\<lparr>timeoutRef := Some (r - d, newValue)\<rparr>)"

text \<open>What can happen to one buffer, and a run of such events from a given state.\<close>

datatype 'a event = Set 'a bool | Undo | Redo | Reset 'a | Elapse nat

fun step :: "UndoRedoOptions \<Rightarrow> 'a event \<Rightarrow> 'a UndoRedo \<Rightarrow> 'a UndoRedo" where
  "step options (Set v forceHistory) s = set_op options v forceHistory s"
| "step options Undo s = undo s"
| "step options Redo s = redo s"
| "step options (Reset v) s = reset v s"
| "step options (Elapse d) s = elapse d s"

definition run :: "UndoRedoOptions \<Rightarrow> 'a event list \<Rightarrow> 'a UndoRedo \<Rightarrow> 'a UndoRedo" where
  "run options evs s = foldl (\<lambda>t ev. step options ev t) s evs"

text \<open>A sequence of calls \<open>set(v, true)\<close>, one for each value of the list.\<close>

definition forced :: "'a list \<Rightarrow> 'a event list" where
  "forced vs = map (\<lambda>v. Set v True) vs"

text \<open>
  The \<open>N\<close> calls of a burst of typing: \<open>set(v)\<close>, then for each pair \<open>(g, w)\<close> of the
  list a wait of \<open>g\<close> milliseconds followed by \<open>set(w)\<close>, none of them forced.
\<close>

definition burst :: "'a \<Rightarrow> (nat \<times> 'a) list \<Rightarrow> 'a event list" where
  "burst v rest = Set v False # concat (map (\<lambda>(g, w). [Elapse g, Set w False]) rest)"

section \<open>Notions the specification uses about a history of calls\<close>

text \<open>
  The refs and the pending timeout agree with \<open>present\<close>: with no timeout pending
  \<open>lastCommittedRef\<close> is \<open>present\<close>, and a pending timeout has captured \<open>present\<close>.
\<close>

definition coherent :: "'a UndoRedo \<Rightarrow> bool" where
  "coherent s =
     (case timeoutRef s of
        None \<Rightarrow> lastCommittedRef s = present s
      | Some (r, newValue) \<Rightarrow> newValue = present s)"

text \<open>
  The value a step pushes onto \<open>past\<close>, if it pushes one: \<open>commitToHistory\<close> (in a \<open>set\<close>
  that commits at once, or when the timeout runs) pushes what \<open>lastCommittedRef.current\<close>
  holds at the next render, which is its \<open>newValue\<close>; \<open>redo\<close> pushes \<open>present\<close>.
  \<open>last_pushed\<close> follows a run of events and keeps the value pushed last, starting again
  from the new value at a \<open>reset\<close>; its last argument is the value the buffer was
  initialised with.
\<close>

fun pushed_by :: "UndoRedoOptions \<Rightarrow> 'a event \<Rightarrow> 'a UndoRedo \<Rightarrow> 'a option" where
  "pushed_by options (Set v forceHistory) s =
     (if v \<noteq> present s \<and> (forceHistory \<or> noDebounce options) then Some v else None)"
| "pushed_by options Undo s = None"
| "pushed_by options Redo s = (if future s \<noteq> [] then Some (present s) else None)"
| "pushed_by options (Reset v) s = None"
| "pushed_by options (Elapse d) s =
     (case timeoutRef s of
        None \<Rightarrow> None
      | Some (r, newValue) \<Rightarrow> if r \<le> d then Some newValue else None)"


text \<open>
  The value a step commits, if it commits one: the \<open>newValue\<close> that \<open>commitToHistory\<close>
  stores in \<open>lastCommittedRef\<close>, and the value of a \<open>reset\<close>. \<open>committed\<close> lists the values
  committed along a run; together with the initial value they are the values that were
  committed at some point.
\<close>

fun committed_by :: "UndoRedoOptions \<Rightarrow> 'a event \<Rightarrow> 'a UndoRedo \<Rightarrow> 'a list" where
  "committed_by options (Set v forceHistory) s =
     (if v \<noteq> present s \<and> (forceHistory \<or> noDebounce options) then [v] else [])"
| "committed_by options Undo s = []"
| "committed_by options Redo s = []"
| "committed_by options (Reset v) s = [v]"
| "committed_by options (Elapse d) s =
     (case timeoutRef s of
        None \<Rightarrow> []
      | Some (r, newValue) \<Rightarrow> if r \<le> d then [newValue] else [])"

fun committed :: "UndoRedoOptions \<Rightarrow> 'a event list \<Rightarrow> 'a UndoRedo \<Rightarrow> 'a list" where
  "committed options [] s = []"
| "committed options (ev # evs) s =
     committed_by options ev s @ committed options evs (step options ev s)"

text \<open>
  The value an \<open>undo\<close> or \<open>redo\<close> moves out of \<open>present\<close> while a debounced commit of it
  is still pending (the call cancels that commit), and the list of them along a run.
\<close>

fun displaced_by :: "'a event \<Rightarrow> 'a UndoRedo \<Rightarrow> 'a list" where
  "displaced_by Undo s = (if past s \<noteq> [] \<and> timeoutRef s \<noteq> None then [present s] else [])"
| "displaced_by Redo s = (if future s \<noteq> [] \<and> timeoutRef s \<noteq> None then [present s] else [])"
| "displaced_by ev s = []"

fun displaced :: "UndoRedoOptions \<Rightarrow> 'a event list \<Rightarrow> 'a UndoRedo \<Rightarrow> 'a list" where
  "displaced options [] s = []"
| "displaced options (ev # evs) s =
     displaced_by ev s @ displaced options evs (step options ev s)"

section \<open>The application's guarded cleaning request (App)\<close>

text \<open>
  The component keeps two buffers, \<open>input\<close> (debounce 800) and \<open>output\<close> (no debounce),
  the flags \<open>isCleaning\<close> and \<open>error\<close>, and the ref \<open>lastRequestTime\<close>. The fields of the
  two buffers are named \<open>input_buf\<close> and \<open>output_buf\<close>.
\<close>

record App =
  input_buf :: "string UndoRedo"
  output_buf :: "string UndoRedo"
  isCleaning :: bool
  error :: "string option"
  lastRequestTime :: int

definition inputOptions :: UndoRedoOptions where
  "inputOptions = \<lparr>debounce = Some 800\<rparr>"

definition outputOptions :: UndoRedoOptions where
  "outputOptions = \<lparr>debounce = None\<rparr>"

definition App_init :: App where
  "App_init =
     \<lparr>input_buf = useUndoRedo '''', output_buf = useUndoRedo '''', isCleaning = False, error = None,
      lastRequestTime = 0\<rparr>"

text \<open>
  \<open>text.trim()\<close> on a string of ASCII characters: the white space and line terminators
  among them are removed at both ends.
\<close>

definition isSpace :: "char \<Rightarrow> bool" where
  "isSpace c = (c \<in> set [CHR 0x09, CHR 0x0A, CHR 0x0B, CHR 0x0C, CHR 0x0D, CHR '' ''])"

definition trim :: "string \<Rightarrow> string" where
  "trim text = rev (dropWhile isSpace (rev (dropWhile isSpace text)))"

text \<open>
  \<open>triggerCleaning\<close> is asynchronous. Its first part runs at the call, up to the
  \<open>await\<close>: it returns early on blank text, and otherwise takes \<open>Date.now()\<close> (the
  argument \<open>now\<close>) as \<open>requestId\<close>, stores it in \<open>lastRequestTime\<close> and raises the loading
  flag. The result carries the \<open>requestId\<close> of the request now in flight, if there is one.
\<close>

definition triggerCleaning_issue :: "int \<Rightarrow> string \<Rightarrow> App \<Rightarrow> App \<times> int option" where
  "triggerCleaning_issue now text a =
     (if trim text = [] then (a, None)
      else
        let requestId = now
        in (a\<lparr>lastRequestTime := requestId, isCleaning := True, error := None\<rparr>,
            Some requestId))"

text \<open>
  Its second part runs when \<open>cleanTextWithGemini\<close> settles, with the cleaned text or with
  the message of the error thrown: the \<open>try\<close>, \<open>catch\<close> and \<open>finally\<close> blocks, each guarded
  by \<open>lastRequestTime.current === requestId\<close>. \<open>seen\<close> is the \<open>present\<close> that the
  \<open>setOutput\<close> of this invocation has captured (the output of the render that created
  it).
\<close>

datatype settled = Fulfilled string | Rejected string

definition triggerCleaning_settle :: "int \<Rightarrow> string \<Rightarrow> settled \<Rightarrow> App \<Rightarrow> App" where
  "triggerCleaning_settle requestId seen outcome a =
     (let a1 =
        (case outcome of
           Fulfilled cleaned \<Rightarrow>
             if lastRequestTime a = requestId
             then a\<lparr>output_buf := set_closure outputOptions seen cleaned True (output_buf a)\<rparr>
             else a
         | Rejected message \<Rightarrow>
             if lastRequestTime a = requestId
             then a\<lparr>error := Some (if message = [] then ''Terjadi kesalahan sistem.''
                                     else message)\<rparr>
             else a)
      in if lastRequestTime a1 = requestId then a1\<lparr>isCleaning := False\<rparr> else a1)"

section \<open>Basic facts\<close>

lemma run_Nil [simp]: "run options [] s = s"
  by (simp add: run_def)

lemma run_Cons [simp]: "run options (ev # evs) s = run options evs (step options ev s)"
  by (simp add: run_def)

lemma run_append: "run options (xs @ ys) s = run options ys (run options xs s)"
  by (simp add: run_def)

lemma run_snoc: "run options (evs @ [ev]) s = step options ev (run options evs s)"
  by (simp add: run_def)


lemma undo_empty: "past s = [] \<Longrightarrow> undo s = s"
  by (simp add: undo_def)

lemma clearPending_fields [simp]:
  "present (clearPending s) = present s"
  "past (clearPending s) = past s"
  "future (clearPending s) = future s"
  "lastCommittedRef (clearPending s) = lastCommittedRef s"
  "timeoutRef (clearPending s) = None"
  by (simp_all add: clearPending_def split: option.splits)

lemma undo_fields:
  assumes "past s \<noteq> []"
  shows "present (undo s) = last (past s)"
    and "past (undo s) = butlast (past s)"
    and "future (undo s) = present s # future s"
    and "lastCommittedRef (undo s) = last (past s)"
    and "timeoutRef (undo s) = None"
  using assms
  by (simp_all add: undo_def Let_def last_conv_nth butlast_conv_take)

lemma redo_fields:
  assumes "future s \<noteq> []"
  shows "present (redo s) = hd (future s)"
    and "past (redo s) = past s @ [present s]"
    and "future (redo s) = tl (future s)"
    and "lastCommittedRef (redo s) = hd (future s)"
    and "timeoutRef (redo s) = None"
  using assms
  by (simp_all add: redo_def Let_def hd_conv_nth drop_Suc)

lemma set_op_same: "set_op options (present s) forceHistory s = s"
  by (simp add: set_op_def set_closure_def)

lemma set_op_commit_fields:
  assumes "v \<noteq> present s" and "forceHistory \<or> noDebounce options"
  shows "present (set_op options v forceHistory s) = v"
    and "past (set_op options v forceHistory s) = past s @ [v]"
    and "future (set_op options v forceHistory s) = []"
    and "lastCommittedRef (set_op options v forceHistory s) = v"
    and "timeoutRef (set_op options v forceHistory s) = None"
  using assms
  by (auto simp add: set_op_def set_closure_def Let_def commitToHistory_def)

lemma set_op_debounced_fields:
  assumes "v \<noteq> present s" and "\<not> forceHistory" and "\<not> noDebounce options"
  shows "present (set_op options v forceHistory s) = v"
    and "past (set_op options v forceHistory s) = past s"
    and "future (set_op options v forceHistory s) = future s"
    and "lastCommittedRef (set_op options v forceHistory s) = lastCommittedRef s"
    and "timeoutRef (set_op options v forceHistory s) = Some (delay options, v)"
  using assms
  by (simp_all add: set_op_def set_closure_def Let_def)

lemma redo_empty: "future s = [] \<Longrightarrow> redo s = s"
  by (simp add: redo_def)

lemmas hook_defs =
  useUndoRedo_def set_op_def set_closure_def commitToHistory_def clearPending_def undo_def
  redo_def reset_def elapse_def noDebounce_def delay_def canUndo_def canRedo_def Let_def

section \<open>The refs agree with \<open>present\<close> in every reachable state\<close>

lemma coherent_init: "coherent (useUndoRedo init)"
  by (simp add: coherent_def useUndoRedo_def)

lemma coherent_set_op: "coherent s \<Longrightarrow> coherent (set_op options v forceHistory s)"
  by (auto simp add: coherent_def set_op_def set_closure_def Let_def commitToHistory_def
      clearPending_def split: option.splits)

lemma coherent_undo: "coherent s \<Longrightarrow> coherent (undo s)"
  by (cases "past s = []") (simp_all add: undo_empty coherent_def undo_fields)

lemma coherent_redo: "coherent s \<Longrightarrow> coherent (redo s)"
  by (cases "future s = []") (simp_all add: redo_empty coherent_def redo_fields)

lemma coherent_reset: "coherent (reset v s)"
  by (simp add: coherent_def reset_def)

lemma coherent_elapse: "coherent s \<Longrightarrow> coherent (elapse d s)"
  by (auto simp add: coherent_def elapse_def commitToHistory_def split: option.splits)

lemma coherent_step: "coherent s \<Longrightarrow> coherent (step options ev s)"
  by (cases ev) (simp_all add: coherent_set_op coherent_undo coherent_redo coherent_reset
      coherent_elapse)

lemma coherent_run: "coherent s \<Longrightarrow> coherent (run options evs s)"
  by (induction evs arbitrary: s) (simp_all add: coherent_step)

section \<open>The pending timeout\<close>

lemma elapse_due:
  assumes "timeoutRef s = Some (r, v)" and "r \<le> d"
  shows "elapse d s = (commitToHistory v s)\<lparr>timeoutRef := None\<rparr>"
  using assms by (simp add: elapse_def)

lemma elapse_early:
  assumes "timeoutRef s = Some (r, v)" and "d < r"
  shows "elapse d s = s\<lparr>timeoutRef := Some (r - d, v)\<rparr>"
  using assms by (simp add: elapse_def)

lemma elapse_idle: "timeoutRef s = None \<Longrightarrow> elapse d s = s"
  by (simp add: elapse_def)

section \<open>Pushed, committed and displaced values\<close>

text \<open>\<open>pushed_by\<close> is what the code pushes: a step appends that value to \<open>past\<close>, or appends nothing.\<close>

lemma pushed_by_Some:
  "pushed_by options ev s = Some x \<Longrightarrow> past (step options ev s) = past s @ [x]"
  by (cases ev)
    (auto simp add: set_op_commit_fields redo_fields elapse_def commitToHistory_def
      split: if_splits option.splits)

lemma pushed_by_None:
  "pushed_by options ev s = None \<Longrightarrow>
     past (step options ev s) = past s \<or> past (step options ev s) = butlast (past s)
     \<or> past (step options ev s) = []"
proof (cases ev)
  case (Set v f)
  assume "pushed_by options ev s = None"
  with Set show ?thesis
    by (cases "v = present s")
      (auto simp add: set_op_same set_op_debounced_fields split: if_splits)
next
  case Undo
  then show ?thesis by (cases "past s = []") (simp_all add: undo_empty undo_fields)
next
  case Redo
  assume "pushed_by options ev s = None"
  with Redo show ?thesis by (simp add: redo_empty split: if_splits)
next
  case (Reset v)
  then show ?thesis by (simp add: reset_def)
next
  case (Elapse d)
  assume "pushed_by options ev s = None"
  with Elapse show ?thesis
    by (auto simp add: elapse_def split: option.splits if_splits)
qed

text \<open>
  \<open>committed_by\<close> and \<open>displaced_by\<close> are what the code stores and moves: a committed
  value is in \<open>lastCommittedRef\<close> after the step, a displaced one was \<open>present\<close> and is in
  \<open>future\<close> or \<open>past\<close> after it.
\<close>

lemma committed_by_stored:
  "v \<in> set (committed_by options ev s) \<Longrightarrow> lastCommittedRef (step options ev s) = v"
  by (cases ev)
    (auto simp add: set_op_commit_fields reset_def elapse_def commitToHistory_def
      split: if_splits option.splits)

lemma displaced_by_moved:
  "v \<in> set (displaced_by ev s) \<Longrightarrow>
     v = present s \<and> (v \<in> set (future (step options ev s)) \<or> v \<in> set (past (step options ev s)))"
  by (cases ev) (auto simp add: undo_fields redo_fields split: if_splits)

lemma committed_snoc:
  "committed options (evs @ [ev]) s
     = committed options evs s @ committed_by options ev (run options evs s)"
  by (induction evs arbitrary: s) simp_all

lemma displaced_snoc:
  "displaced options (evs @ [ev]) s
     = displaced options evs s @ displaced_by ev (run options evs s)"
  by (induction evs arbitrary: s) simp_all

lemma history_step:
  assumes "coherent s" and "set (past s) \<subseteq> G" and "set (future s) \<subseteq> G"
    and "lastCommittedRef s \<in> G"
  shows "set (past (step options ev s))
           \<subseteq> G \<union> set (committed_by options ev s) \<union> set (displaced_by ev s)"
    and "set (future (step options ev s))
           \<subseteq> G \<union> set (committed_by options ev s) \<union> set (displaced_by ev s)"
    and "lastCommittedRef (step options ev s)
           \<in> G \<union> set (committed_by options ev s) \<union> set (displaced_by ev s)"
proof -
  have pres: "present s \<in> G" if "timeoutRef s = None"
    using assms(1,4) that by (simp add: coherent_def)
  have "set (past (step options ev s))
           \<subseteq> G \<union> set (committed_by options ev s) \<union> set (displaced_by ev s)
      \<and> set (future (step options ev s))
           \<subseteq> G \<union> set (committed_by options ev s) \<union> set (displaced_by ev s)
      \<and> lastCommittedRef (step options ev s)
           \<in> G \<union> set (committed_by options ev s) \<union> set (displaced_by ev s)"
  proof (cases ev)
    case (Set v f)
    show ?thesis
    proof (cases "v = present s")
      case True
      with Set assms show ?thesis by (simp add: set_op_same)
    next
      case False
      with Set assms show ?thesis
        by (cases "f \<or> noDebounce options")
          (auto simp add: set_op_commit_fields set_op_debounced_fields)
    qed
  next
    case Undo
    show ?thesis
    proof (cases "past s = []")
      case True
      with Undo assms show ?thesis by (simp add: undo_empty)
    next
      case False
      then have "last (past s) \<in> G" and "set (butlast (past s)) \<subseteq> G"
        using assms(2) by (auto dest: in_set_butlastD)
      with Undo False assms pres show ?thesis
        by (cases "timeoutRef s") (auto simp add: undo_fields)
    qed
  next
    case Redo
    show ?thesis
    proof (cases "future s = []")
      case True
      with Redo assms show ?thesis by (simp add: redo_empty)
    next
      case False
      then have "hd (future s) \<in> G" and "set (tl (future s)) \<subseteq> G"
        using assms(3) by (auto dest: list.set_sel(2))
      with Redo False assms pres show ?thesis
        by (cases "timeoutRef s") (auto simp add: redo_fields)
    qed
  next
    case (Reset v)
    then show ?thesis by (simp add: reset_def)
  next
    case (Elapse d)
    with assms show ?thesis
      by (auto simp add: elapse_def commitToHistory_def split: option.splits)
  qed
  then show "set (past (step options ev s))
           \<subseteq> G \<union> set (committed_by options ev s) \<union> set (displaced_by ev s)"
    and "set (future (step options ev s))
           \<subseteq> G \<union> set (committed_by options ev s) \<union> set (displaced_by ev s)"
    and "lastCommittedRef (step options ev s)
           \<in> G \<union> set (committed_by options ev s) \<union> set (displaced_by ev s)"
    by simp_all
qed

lemma history_run:
  "set (past (run options evs (useUndoRedo init)))
     \<subseteq> set (init # committed options evs (useUndoRedo init))
        \<union> set (displaced options evs (useUndoRedo init))
   \<and> set (future (run options evs (useUndoRedo init)))
     \<subseteq> set (init # committed options evs (useUndoRedo init))
        \<union> set (displaced options evs (useUndoRedo init))
   \<and> lastCommittedRef (run options evs (useUndoRedo init))
     \<in> set (init # committed options evs (useUndoRedo init))
        \<union> set (displaced options evs (useUndoRedo init))"
proof (induction evs rule: rev_induct)
  case Nil
  show ?case by (simp add: useUndoRedo_def)
next
  case (snoc ev evs)
  let ?s = "run options evs (useUndoRedo init)"
  let ?G = "set (init # committed options evs (useUndoRedo init))
        \<union> set (displaced options evs (useUndoRedo init))"
  have c: "coherent ?s" by (rule coherent_run) (rule coherent_init)
  from snoc have a: "set (past ?s) \<subseteq> ?G" "set (future ?s) \<subseteq> ?G" "lastCommittedRef ?s \<in> ?G"
    by blast+
  have G': "set (init # committed options (evs @ [ev]) (useUndoRedo init))
        \<union> set (displaced options (evs @ [ev]) (useUndoRedo init))
      = ?G \<union> set (committed_by options ev ?s) \<union> set (displaced_by ev ?s)"
    by (auto simp add: committed_snoc displaced_snoc)
  show ?case
    unfolding G' run_snoc
    using history_step [OF c a, of options ev] by blast
qed

section \<open>Undo, redo and forced commits\<close>

text \<open>
  C1. In any state whose \<open>past\<close> is not empty, \<open>undo()\<close> followed at once by \<open>redo()\<close>
  leaves \<open>present\<close>, \<open>past\<close> and \<open>future\<close> as they were before the two calls.
\<close>

theorem undo_redo_roundtrip:
  assumes "past s \<noteq> []"
  shows "present (redo (undo s)) = present s
       \<and> past (redo (undo s)) = past s
       \<and> future (redo (undo s)) = future s"
proof -
  have f: "future (undo s) \<noteq> []"
    using assms by (simp add: undo_fields)
  show ?thesis
    using assms by (simp add: redo_fields [OF f] undo_fields)
qed

theorem undo_redo_roundtrip_witness:
  "past \<lparr>present = ''ab'', past = ['''', ''a''], future = [''abc''],
         lastCommittedRef = ''a'', timeoutRef = Some (300, ''ab'')\<rparr> \<noteq> []
   \<and> present (redo (undo \<lparr>present = ''ab'', past = ['''', ''a''], future = [''abc''],
         lastCommittedRef = ''a'', timeoutRef = Some (300, ''ab'')\<rparr>)) = ''ab''
   \<and> past (redo (undo \<lparr>present = ''ab'', past = ['''', ''a''], future = [''abc''],
         lastCommittedRef = ''a'', timeoutRef = Some (300, ''ab'')\<rparr>)) = ['''', ''a'']
   \<and> future (redo (undo \<lparr>present = ''ab'', past = ['''', ''a''], future = [''abc''],
         lastCommittedRef = ''a'', timeoutRef = Some (300, ''ab'')\<rparr>)) = [''abc'']"
  using undo_redo_roundtrip [of "\<lparr>present = ''ab'', past = ['''', ''a''], future = [''abc''],
         lastCommittedRef = ''a'', timeoutRef = Some (300, ''ab'')\<rparr>"]
  by simp

text \<open>
  C6. In any state whose \<open>future\<close> is not empty, \<open>set(v, true)\<close> with \<open>v\<close> different from
  \<open>present\<close> empties \<open>future\<close>, so that \<open>canRedo\<close> is false afterwards.
\<close>

theorem forced_set_clears_future:
  assumes "future s \<noteq> []" and "v \<noteq> present s"
  shows "future (set_op options v True s) = [] \<and> \<not> canRedo (set_op options v True s)"
  using assms by (simp add: set_op_commit_fields canRedo_def)

theorem forced_set_clears_future_witness:
  "future (undo (set_op \<lparr>debounce = Some 800\<rparr> ''a'' True (useUndoRedo ''''))) \<noteq> []
   \<and> ''b'' \<noteq> present (undo (set_op \<lparr>debounce = Some 800\<rparr> ''a'' True (useUndoRedo '''')))
   \<and> future (set_op \<lparr>debounce = Some 800\<rparr> ''b'' True
        (undo (set_op \<lparr>debounce = Some 800\<rparr> ''a'' True (useUndoRedo '''')))) = []
   \<and> \<not> canRedo (set_op \<lparr>debounce = Some 800\<rparr> ''b'' True
        (undo (set_op \<lparr>debounce = Some 800\<rparr> ''a'' True (useUndoRedo ''''))))"
proof -
  let ?s = "undo (set_op \<lparr>debounce = Some 800\<rparr> ''a'' True (useUndoRedo ''''))"
  have h1: "future ?s \<noteq> []"
    by (simp add: undo_def set_op_def set_closure_def commitToHistory_def useUndoRedo_def
        clearPending_def Let_def)
  have h2: "''b'' \<noteq> present ?s"
    by (simp add: undo_def set_op_def set_closure_def commitToHistory_def useUndoRedo_def
        clearPending_def Let_def)
  show ?thesis
    using h1 h2 forced_set_clears_future [OF h1 h2, of "\<lparr>debounce = Some 800\<rparr>"] by simp
qed

text \<open>
  C7. \<open>undo()\<close> changes nothing when \<open>past\<close> is empty. Otherwise it cancels the pending
  debounced commit, puts the current \<open>present\<close> at the front of \<open>future\<close>, removes the
  last entry of \<open>past\<close>, makes that entry the new \<open>present\<close> and stores it in
  \<open>lastCommitted\<close>.
\<close>

theorem undo_spec:
  "(past s = [] \<longrightarrow> undo s = s)
   \<and> (past s \<noteq> [] \<longrightarrow>
        undo s = \<lparr>present = last (past s), past = butlast (past s),
                  future = present s # future s, lastCommittedRef = last (past s),
                  timeoutRef = None\<rparr>)"
proof (intro conjI impI)
  assume "past s = []"
  then show "undo s = s" by (rule undo_empty)
next
  assume ne: "past s \<noteq> []"
  have "undo s = \<lparr>present = present (undo s), past = past (undo s), future = future (undo s),
                  lastCommittedRef = lastCommittedRef (undo s), timeoutRef = timeoutRef (undo s)\<rparr>"
    by simp
  then show "undo s = \<lparr>present = last (past s), past = butlast (past s),
                  future = present s # future s, lastCommittedRef = last (past s),
                  timeoutRef = None\<rparr>"
    by (simp add: undo_fields [OF ne])
qed

theorem undo_spec_witness:
  "undo \<lparr>present = ''a'', past = [], future = [''b''], lastCommittedRef = '''',
         timeoutRef = Some (5, ''a'')\<rparr>
     = \<lparr>present = ''a'', past = [], future = [''b''], lastCommittedRef = '''',
         timeoutRef = Some (5, ''a'')\<rparr>
   \<and> undo \<lparr>present = ''ab'', past = ['''', ''a''], future = [''abc''], lastCommittedRef = ''a'',
         timeoutRef = Some (300, ''ab'')\<rparr>
     = \<lparr>present = ''a'', past = [''''], future = [''ab'', ''abc''], lastCommittedRef = ''a'',
         timeoutRef = None\<rparr>"
  using undo_spec [of "\<lparr>present = ''a'', past = [], future = [''b''], lastCommittedRef = '''',
         timeoutRef = Some (5, ''a'')\<rparr>"]
    undo_spec [of "\<lparr>present = ''ab'', past = ['''', ''a''], future = [''abc''],
         lastCommittedRef = ''a'', timeoutRef = Some (300, ''ab'')\<rparr>"]
  by simp

section \<open>Forced commits and repeated undo\<close>

text \<open>Each forced call with a new value appends that value to \<open>past\<close>.\<close>

lemma forced_run:
  assumes "distinct_adj (present s # vs)"
  shows "past (run options (forced vs) s) = past s @ vs
       \<and> present (run options (forced vs) s) = last (present s # vs)"
  using assms
proof (induction vs arbitrary: s)
  case Nil
  then show ?case by (simp add: forced_def)
next
  case (Cons v vs)
  let ?t = "set_op options v True s"
  from Cons.prems have ne: "v \<noteq> present s" by auto
  have t: "present ?t = v" "past ?t = past s @ [v]"
    using ne by (simp_all add: set_op_commit_fields)
  have "distinct_adj (present ?t # vs)"
    using Cons.prems t(1) by (cases vs) auto
  with Cons.IH [of ?t] t
  show ?case by (simp add: forced_def)
qed

lemma undo_funpow:
  "j \<le> length (past s) \<Longrightarrow>
     past ((undo ^^ j) s) = take (length (past s) - j) (past s)
   \<and> present ((undo ^^ j) s) = (past s @ [present s]) ! (length (past s) - j)"
proof (induction j)
  case 0
  then show ?case by simp
next
  case (Suc j)
  let ?t = "(undo ^^ j) s"
  from Suc have IH: "past ?t = take (length (past s) - j) (past s)"
    "present ?t = (past s @ [present s]) ! (length (past s) - j)" by simp_all
  from Suc.prems IH(1) have ne: "past ?t \<noteq> []" by auto
  have "past (undo ?t) = butlast (past ?t)" "present (undo ?t) = last (past ?t)"
    using ne by (simp_all add: undo_fields)
  with IH ne Suc.prems show ?case
    by (auto simp add: butlast_take last_conv_nth nth_append Suc_diff_Suc)
qed

text \<open>
  After any non-empty sequence of forced calls on a fresh buffer, undoing all of \<open>past\<close>
  ends at the first value set, which is not the initial value, and \<open>past\<close> is then empty.
\<close>

lemma forced_sets_undo_bottom:
  assumes "distinct_adj (init # vs)" and "vs \<noteq> []"
  shows "present ((undo ^^ length vs) (run options (forced vs) (useUndoRedo init))) = hd vs"
    and "past ((undo ^^ length vs) (run options (forced vs) (useUndoRedo init))) = []"
    and "hd vs \<noteq> init"
proof -
  let ?s = "run options (forced vs) (useUndoRedo init)"
  have "distinct_adj (present (useUndoRedo init) # vs)"
    using assms(1) by (simp add: useUndoRedo_def)
  from forced_run [OF this, of options]
  have pst: "past ?s = vs" by (simp add: useUndoRedo_def)
  have u: "past ((undo ^^ length vs) ?s) = take (length (past ?s) - length vs) (past ?s)
         \<and> present ((undo ^^ length vs) ?s)
             = (past ?s @ [present ?s]) ! (length (past ?s) - length vs)"
    by (rule undo_funpow) (simp add: pst)
  from u show "past ((undo ^^ length vs) ?s) = []"
    by (simp add: pst)
  from u assms(2) show "present ((undo ^^ length vs) ?s) = hd vs"
    by (simp add: pst nth_append hd_conv_nth)
  from assms show "hd vs \<noteq> init"
    by (cases vs) auto
qed

text \<open>
  C2. The claim does not hold of the hook. On a fresh buffer initialised with the empty
  string, \<open>set(''a'', true)\<close> and \<open>set(''b'', true)\<close> make \<open>canUndo\<close> true, but \<open>past\<close> is
  \<open>[''a'', ''b'']\<close>: the first \<open>undo()\<close> shows \<open>''b''\<close> again, the second shows \<open>''a''\<close> and
  empties \<open>past\<close>, and every further \<open>undo()\<close> changes nothing. The initial value is never
  shown again.
\<close>

theorem forced_sets_undo_misses_initial:
  "past (run \<lparr>debounce = None\<rparr> (forced [''a'', ''b'']) (useUndoRedo '''')) = [''a'', ''b'']
   \<and> present (run \<lparr>debounce = None\<rparr> (forced [''a'', ''b'']) (useUndoRedo '''')) = ''b''
   \<and> canUndo (run \<lparr>debounce = None\<rparr> (forced [''a'', ''b'']) (useUndoRedo ''''))
   \<and> present (undo (run \<lparr>debounce = None\<rparr> (forced [''a'', ''b'']) (useUndoRedo ''''))) = ''b''
   \<and> present (undo (undo (run \<lparr>debounce = None\<rparr> (forced [''a'', ''b''])
        (useUndoRedo '''')))) = ''a''
   \<and> past (undo (undo (run \<lparr>debounce = None\<rparr> (forced [''a'', ''b''])
        (useUndoRedo '''')))) = []
   \<and> undo (undo (undo (run \<lparr>debounce = None\<rparr> (forced [''a'', ''b'']) (useUndoRedo ''''))))
        = undo (undo (run \<lparr>debounce = None\<rparr> (forced [''a'', ''b'']) (useUndoRedo '''')))"
proof -
  have s: "run \<lparr>debounce = None\<rparr> (forced [''a'', ''b'']) (useUndoRedo '''')
      = \<lparr>present = ''b'', past = [''a'', ''b''], future = [], lastCommittedRef = ''b'',
         timeoutRef = None\<rparr>"
    by (simp add: forced_def hook_defs)
  show ?thesis
    unfolding s by (simp add: hook_defs)
qed

section \<open>Debounced commits\<close>

text \<open>The calls of a burst after the first: the pending commit is replaced each time.\<close>

lemma burst_rest:
  assumes "\<not> noDebounce options"
    and "timeoutRef s = Some (delay options, present s)"
    and "distinct_adj (present s # map snd rest)"
    and "\<forall>p \<in> set rest. fst p < delay options"
  shows "run options (concat (map (\<lambda>(g, w). [Elapse g, Set w False]) rest)) s
         = s\<lparr>present := last (present s # map snd rest),
              timeoutRef := Some (delay options, last (present s # map snd rest))\<rparr>"
  using assms
proof (induction rest arbitrary: s)
  case Nil
  then show ?case by simp
next
  case (Cons p rest)
  obtain g w where p: "p = (g, w)" by (cases p)
  from Cons.prems(4) p have g: "g < delay options" by simp
  from Cons.prems(3) p have w: "w \<noteq> present s" by auto
  let ?e = "elapse g s"
  have e: "?e = s\<lparr>timeoutRef := Some (delay options - g, present s)\<rparr>"
    using Cons.prems(2) g by (rule elapse_early)
  let ?t = "set_op options w False ?e"
  have w': "w \<noteq> present ?e" using w by (simp add: e)
  have t: "?t = s\<lparr>present := w, timeoutRef := Some (delay options, w)\<rparr>"
    using w Cons.prems(1) by (simp add: e set_op_def set_closure_def Let_def)
  have "run options (concat (map (\<lambda>(g, w). [Elapse g, Set w False]) rest)) ?t
         = ?t\<lparr>present := last (present ?t # map snd rest),
              timeoutRef := Some (delay options, last (present ?t # map snd rest))\<rparr>"
  proof (rule Cons.IH)
    show "\<not> noDebounce options" by (rule Cons.prems(1))
    show "timeoutRef ?t = Some (delay options, present ?t)" by (simp add: t)
    show "distinct_adj (present ?t # map snd rest)"
      using Cons.prems(3) p by (simp add: t)
    show "\<forall>p \<in> set rest. fst p < delay options"
      using Cons.prems(4) by simp
  qed
  then show ?case by (simp add: p t)
qed

text \<open>
  A burst followed by a pause, from any state: nothing is pushed during the burst, and the
  timeout that runs in the pause pushes one entry, the value of the last call.
\<close>

lemma burst_then_pause:
  assumes "\<not> noDebounce options"
    and "distinct_adj (present s # v # map snd rest)"
    and "\<forall>p \<in> set rest. fst p < delay options"
    and "delay options \<le> q"
  shows "past (run options (burst v rest) s) = past s"
    and "past (run options (burst v rest @ [Elapse q]) s) = past s @ [last (v # map snd rest)]"
    and "present (run options (burst v rest @ [Elapse q]) s) = last (v # map snd rest)"
    and "timeoutRef (run options (burst v rest @ [Elapse q]) s) = None"
proof -
  from assms(2) have v: "v \<noteq> present s" by auto
  let ?s1 = "set_op options v False s"
  have s1: "?s1 = s\<lparr>present := v, timeoutRef := Some (delay options, v)\<rparr>"
    using v assms(1) by (simp add: set_op_def set_closure_def Let_def)
  let ?s2 = "run options (concat (map (\<lambda>(g, w). [Elapse g, Set w False]) rest)) ?s1"
  have s2: "?s2 = ?s1\<lparr>present := last (present ?s1 # map snd rest),
              timeoutRef := Some (delay options, last (present ?s1 # map snd rest))\<rparr>"
  proof (rule burst_rest)
    show "\<not> noDebounce options" by (rule assms(1))
    show "timeoutRef ?s1 = Some (delay options, present ?s1)" by (simp add: s1)
    show "distinct_adj (present ?s1 # map snd rest)" using assms(2) by (simp add: s1)
    show "\<forall>p \<in> set rest. fst p < delay options" by (rule assms(3))
  qed
  have b: "run options (burst v rest) s = ?s2"
    by (simp add: burst_def)
  have s2': "?s2 = s\<lparr>present := last (v # map snd rest),
              timeoutRef := Some (delay options, last (v # map snd rest))\<rparr>"
    using s2 by (simp add: s1)
  have fin: "run options (burst v rest @ [Elapse q]) s = elapse q ?s2"
    by (simp only: run_snoc b step.simps)
  have due: "elapse q ?s2 = (commitToHistory (last (v # map snd rest)) ?s2)\<lparr>timeoutRef := None\<rparr>"
    by (rule elapse_due [where r = "delay options"]) (simp_all add: s2' assms(4))
  show "past (run options (burst v rest) s) = past s"
    by (simp only: b) (simp add: s2')
  show "past (run options (burst v rest @ [Elapse q]) s) = past s @ [last (v # map snd rest)]"
    by (simp only: fin due) (simp add: s2' commitToHistory_def)
  show "present (run options (burst v rest @ [Elapse q]) s) = last (v # map snd rest)"
    by (simp only: fin due) (simp add: s2' commitToHistory_def)
  show "timeoutRef (run options (burst v rest @ [Elapse q]) s) = None"
    by (simp only: fin due) simp
qed

text \<open>
  C5. The claim does not hold of the hook. With debounce 800 on a fresh buffer initialised
  with the empty string, \<open>set(''a'')\<close>, \<open>set(''ab'')\<close> 100 ms later and \<open>set(''abc'')\<close> 799 ms
  after that push nothing, and the pause of 800 ms that follows pushes exactly one entry.
  That entry is \<open>''abc''\<close>, the value of the last call, and not the empty string, which was
  the value shown before the first call.
\<close>

theorem debounce_pushes_last_value:
  "past (run \<lparr>debounce = Some 800\<rparr> (burst ''a'' [(100, ''ab''), (799, ''abc'')])
        (useUndoRedo '''')) = []
   \<and> past (run \<lparr>debounce = Some 800\<rparr> (burst ''a'' [(100, ''ab''), (799, ''abc'')] @ [Elapse 800])
        (useUndoRedo '''')) = [''abc'']
   \<and> past (run \<lparr>debounce = Some 800\<rparr> (burst ''a'' [(100, ''ab''), (799, ''abc'')] @ [Elapse 800])
        (useUndoRedo '''')) \<noteq> [present (useUndoRedo '''')]
   \<and> present (run \<lparr>debounce = Some 800\<rparr>
        (burst ''a'' [(100, ''ab''), (799, ''abc'')] @ [Elapse 800]) (useUndoRedo '''')) = ''abc''"
  by (simp add: burst_def hook_defs)

text \<open>
  C10. On a buffer with a positive debounce interval \<open>D\<close>, a call \<open>set(v)\<close> that is not
  forced, with \<open>v\<close> different from \<open>present\<close>, leaves \<open>future\<close> and \<open>canRedo\<close> as they were
  and schedules the commit. \<open>future\<close> is still unchanged as long as the timeout has not
  run, and is empty once it has, which is the case at the latest after \<open>D\<close> milliseconds.
  The timeout waits \<open>D\<close> milliseconds when \<open>D\<close> is below \<open>2^31\<close>, and one millisecond
  otherwise.
\<close>

theorem debounced_set_keeps_future:
  assumes "debounce options = Some D" and "0 < D" and "v \<noteq> present s"
  shows "future (set_op options v False s) = future s
       \<and> canRedo (set_op options v False s) = canRedo s
       \<and> timeoutRef (set_op options v False s) = Some (delay options, v)
       \<and> (\<forall>d. d < delay options \<longrightarrow> future (elapse d (set_op options v False s)) = future s)
       \<and> (\<forall>d. delay options \<le> d \<longrightarrow> future (elapse d (set_op options v False s)) = [])
       \<and> (\<forall>d. nat D \<le> d \<longrightarrow> future (elapse d (set_op options v False s)) = [])
       \<and> delay options = (if D \<le> 2147483647 then nat D else 1)"
proof -
  have nd: "\<not> noDebounce options"
    and dl: "delay options = (if D \<le> 2147483647 then nat D else 1)"
    using assms(1,2) by (simp_all add: noDebounce_def delay_def)
  from dl assms(2) have le: "delay options \<le> nat D"
    by (simp split: if_splits)
  let ?t = "set_op options v False s"
  have t: "future ?t = future s" "timeoutRef ?t = Some (delay options, v)"
    using assms(3) nd by (simp_all add: set_op_debounced_fields)
  have early: "future (elapse d ?t) = future s" if "d < delay options" for d
    using elapse_early [OF t(2) that] t(1) by simp
  have due: "future (elapse d ?t) = []" if "delay options \<le> d" for d
    using elapse_due [OF t(2) that] by (simp add: commitToHistory_def)
  have late: "future (elapse d ?t) = []" if "nat D \<le> d" for d
    using due [of d] le that by simp
  from t early due late dl show ?thesis by (simp add: canRedo_def)
qed

theorem debounced_set_keeps_future_witness:
  "(0::int) < 800
   \<and> ''ab'' \<noteq> present (undo (set_op \<lparr>debounce = Some 800\<rparr> ''a'' True (useUndoRedo '''')))
   \<and> future (set_op \<lparr>debounce = Some 800\<rparr> ''ab'' False
        (undo (set_op \<lparr>debounce = Some 800\<rparr> ''a'' True (useUndoRedo '''')))) = [''a'']
   \<and> canRedo (set_op \<lparr>debounce = Some 800\<rparr> ''ab'' False
        (undo (set_op \<lparr>debounce = Some 800\<rparr> ''a'' True (useUndoRedo ''''))))
   \<and> delay \<lparr>debounce = Some 800\<rparr> = 800
   \<and> future (elapse 799 (set_op \<lparr>debounce = Some 800\<rparr> ''ab'' False
        (undo (set_op \<lparr>debounce = Some 800\<rparr> ''a'' True (useUndoRedo ''''))))) = [''a'']
   \<and> future (elapse 800 (set_op \<lparr>debounce = Some 800\<rparr> ''ab'' False
        (undo (set_op \<lparr>debounce = Some 800\<rparr> ''a'' True (useUndoRedo ''''))))) = []"
proof -
  let ?o = "\<lparr>debounce = Some 800\<rparr>"
  let ?s = "undo (set_op ?o ''a'' True (useUndoRedo ''''))"
  have s: "?s = \<lparr>present = ''a'', past = [], future = [''a''], lastCommittedRef = ''a'',
                  timeoutRef = None\<rparr>"
    by (simp add: hook_defs)
  have h1: "debounce ?o = Some 800" by simp
  have h2: "(0::int) < 800" by simp
  have h3: "''ab'' \<noteq> present ?s" by (simp add: s)
  note T = debounced_set_keeps_future [OF h1 h2 h3]
  note early = T [THEN conjunct2, THEN conjunct2, THEN conjunct2, THEN conjunct1, rule_format]
  note due = T [THEN conjunct2, THEN conjunct2, THEN conjunct2, THEN conjunct2, THEN conjunct2,
    THEN conjunct1, rule_format]
  have dl: "delay ?o = 800"
    using T by simp
  have e: "future (elapse 799 (set_op ?o ''ab'' False ?s)) = future ?s"
    by (rule early) (simp add: dl)
  have d: "future (elapse 800 (set_op ?o ''ab'' False ?s)) = []"
    by (rule due) simp
  have f: "future (set_op ?o ''ab'' False ?s) = future ?s"
    and c: "canRedo (set_op ?o ''ab'' False ?s) = canRedo ?s"
    using T by simp_all
  have fs: "future ?s = [''a'']" and cs: "canRedo ?s"
    by (simp_all add: s canRedo_def)
  show ?thesis
    using h2 h3 e d f c fs cs dl by simp
qed

section \<open>What \<open>lastCommitted\<close> holds\<close>





section \<open>The values in \<open>past\<close> and \<open>future\<close>\<close>

text \<open>
  C4, as stated, fails: with debounce 800, \<open>set(''a'')\<close>, a pause of 900 ms, \<open>set(''ab'')\<close> and
  an \<open>undo()\<close> before the second commit falls due leave \<open>''ab''\<close> in \<open>future\<close>, a value that
  was never committed: \<open>undo\<close> cancels the pending commit and moves \<open>present\<close> to
  \<open>future\<close> as it is.
\<close>

theorem uncommitted_value_in_future:
  "future (run \<lparr>debounce = Some 800\<rparr> [Set ''a'' False, Elapse 900, Set ''ab'' False, Undo]
       (useUndoRedo '''')) = [''ab'']
   \<and> ''ab'' \<in> set (future (run \<lparr>debounce = Some 800\<rparr>
       [Set ''a'' False, Elapse 900, Set ''ab'' False, Undo] (useUndoRedo '''')))
   \<and> ''ab'' \<notin> set ('''' # committed \<lparr>debounce = Some 800\<rparr>
       [Set ''a'' False, Elapse 900, Set ''ab'' False, Undo] (useUndoRedo ''''))"
  by (simp add: hook_defs)

text \<open>
  C4, amended. In every reachable state, every value in \<open>past\<close> and every value in
  \<open>future\<close> is the initial value, a value that was committed at some point (by
  \<open>commitToHistory\<close> or \<open>reset\<close>), or a value that an \<open>undo\<close> or \<open>redo\<close> moved out of
  \<open>present\<close> while its debounced commit was still pending.
\<close>

theorem history_values_committed_or_displaced:
  "set (past (run options evs (useUndoRedo init)))
     \<union> set (future (run options evs (useUndoRedo init)))
   \<subseteq> set (init # committed options evs (useUndoRedo init))
      \<union> set (displaced options evs (useUndoRedo init))"
  using history_run [of options evs init] by blast

theorem history_values_committed_or_displaced_witness:
  "set (past (run \<lparr>debounce = Some 800\<rparr>
       [Set ''a'' False, Elapse 900, Set ''ab'' False, Undo, Redo, Undo] (useUndoRedo '''')))
     \<union> set (future (run \<lparr>debounce = Some 800\<rparr>
       [Set ''a'' False, Elapse 900, Set ''ab'' False, Undo, Redo, Undo] (useUndoRedo '''')))
   \<subseteq> set ('''' # [''a'']) \<union> set [''ab'']
   \<and> committed \<lparr>debounce = Some 800\<rparr>
       [Set ''a'' False, Elapse 900, Set ''ab'' False, Undo, Redo, Undo] (useUndoRedo '''')
       = [''a'']
   \<and> displaced \<lparr>debounce = Some 800\<rparr>
       [Set ''a'' False, Elapse 900, Set ''ab'' False, Undo, Redo, Undo] (useUndoRedo '''')
       = [''ab'']"
proof -
  let ?o = "\<lparr>debounce = Some 800\<rparr>"
  let ?evs = "[Set ''a'' False, Elapse 900, Set ''ab'' False, Undo, Redo, Undo]"
  have c: "committed ?o ?evs (useUndoRedo '''') = [''a'']"
    by (simp add: hook_defs)
  have d: "displaced ?o ?evs (useUndoRedo '''') = [''ab'']"
    by (simp add: hook_defs)
  have sub: "set (past (run ?o ?evs (useUndoRedo ''''))) \<union> set (future (run ?o ?evs (useUndoRedo '''')))
      \<subseteq> set ('''' # [''a'']) \<union> set [''ab'']"
    using history_values_committed_or_displaced [of ?o ?evs "''''"] by (simp only: c d)
  from sub c d show ?thesis by (intro conjI)
qed

section \<open>The request guard\<close>

text \<open>
  C8. The token of a request is the reading of the clock at the call. Two calls of
  \<open>triggerCleaning\<close> in the same millisecond (\<open>Date.now()\<close> is 1000 at both) get the same
  token, so the token of the later one is not strictly greater; and the result of the
  earlier request, arriving after the later one was issued, passes the guard and is
  written to the output.
\<close>

theorem same_millisecond_same_token:
  "snd (triggerCleaning_issue 1000 ''first'' App_init) = Some 1000
   \<and> snd (triggerCleaning_issue 1000 ''second''
        (fst (triggerCleaning_issue 1000 ''first'' App_init))) = Some 1000
   \<and> \<not> (1000 < (1000::int))
   \<and> present (output_buf (triggerCleaning_settle 1000 '''' (Fulfilled ''stale'')
        (fst (triggerCleaning_issue 1000 ''second''
          (fst (triggerCleaning_issue 1000 ''first'' App_init)))))) = ''stale''"
proof -
  have t: "trim ''first'' \<noteq> []" "trim ''second'' \<noteq> []"
    by (simp_all add: trim_def isSpace_def)
  have i1: "triggerCleaning_issue 1000 ''first'' App_init
      = (App_init\<lparr>lastRequestTime := 1000, isCleaning := True, error := None\<rparr>, Some 1000)"
    using t by (simp add: triggerCleaning_issue_def Let_def)
  have i2: "triggerCleaning_issue 1000 ''second''
        (App_init\<lparr>lastRequestTime := 1000, isCleaning := True, error := None\<rparr>)
      = (App_init\<lparr>lastRequestTime := 1000, isCleaning := True, error := None\<rparr>, Some 1000)"
    using t by (simp add: triggerCleaning_issue_def Let_def)
  have s: "present (output_buf (triggerCleaning_settle 1000 '''' (Fulfilled ''stale'')
        (App_init\<lparr>lastRequestTime := 1000, isCleaning := True, error := None\<rparr>))) = ''stale''"
    by (simp add: triggerCleaning_settle_def App_init_def outputOptions_def hook_defs)
  show ?thesis
    by (simp add: i1 i2 s)
qed

text \<open>
  C9. A cleaning request that fails leaves both buffers as they are, with their
  \<open>present\<close>, \<open>past\<close> and \<open>future\<close>: issuing the request does not touch them, and the
  \<open>catch\<close> and \<open>finally\<close> blocks that run on the failure do not either, whatever the
  state they run in and whether or not the request is still the latest.
\<close>

theorem failed_cleaning_keeps_history:
  "input_buf (fst (triggerCleaning_issue now text a)) = input_buf a
   \<and> output_buf (fst (triggerCleaning_issue now text a)) = output_buf a
   \<and> input_buf (triggerCleaning_settle requestId seen (Rejected message) a) = input_buf a
   \<and> output_buf (triggerCleaning_settle requestId seen (Rejected message) a) = output_buf a
   \<and> input_buf (triggerCleaning_settle requestId seen (Rejected message)
        (fst (triggerCleaning_issue now text a))) = input_buf a
   \<and> output_buf (triggerCleaning_settle requestId seen (Rejected message)
        (fst (triggerCleaning_issue now text a))) = output_buf a"
  by (simp add: triggerCleaning_issue_def triggerCleaning_settle_def Let_def)

theorem failed_cleaning_keeps_history_witness:
  "snd (triggerCleaning_issue 1000 ''x  y'' App_init) = Some 1000
   \<and> output_buf (triggerCleaning_settle 1000 '''' (Rejected ''Gagal memproses teks.'')
        (fst (triggerCleaning_issue 1000 ''x  y'' App_init))) = output_buf App_init
   \<and> present (output_buf (triggerCleaning_settle 1000 '''' (Rejected ''Gagal memproses teks.'')
        (fst (triggerCleaning_issue 1000 ''x  y'' App_init)))) = ''''
   \<and> past (output_buf (triggerCleaning_settle 1000 '''' (Rejected ''Gagal memproses teks.'')
        (fst (triggerCleaning_issue 1000 ''x  y'' App_init)))) = []
   \<and> future (output_buf (triggerCleaning_settle 1000 '''' (Rejected ''Gagal memproses teks.'')
        (fst (triggerCleaning_issue 1000 ''x  y'' App_init)))) = []
   \<and> error (triggerCleaning_settle 1000 '''' (Rejected ''Gagal memproses teks.'')
        (fst (triggerCleaning_issue 1000 ''x  y'' App_init))) = Some ''Gagal memproses teks.''"
proof -
  have t: "trim ''x  y'' \<noteq> []"
    by (simp add: trim_def isSpace_def)
  have i: "triggerCleaning_issue 1000 ''x  y'' App_init
      = (App_init\<lparr>lastRequestTime := 1000, isCleaning := True, error := None\<rparr>, Some 1000)"
    using t by (simp add: triggerCleaning_issue_def Let_def)
  have e: "error (triggerCleaning_settle 1000 '''' (Rejected ''Gagal memproses teks.'')
        (fst (triggerCleaning_issue 1000 ''x  y'' App_init))) = Some ''Gagal memproses teks.''"
    by (simp add: i triggerCleaning_settle_def Let_def)
  have o: "output_buf App_init = useUndoRedo ''''"
    by (simp add: App_init_def)
  show ?thesis
    using failed_cleaning_keeps_history
      [of 1000 "''x  y''" App_init 1000 "''''" "''Gagal memproses teks.''"] e
    by (simp add: i o useUndoRedo_def)
qed

end
